theory Spec2Isabelle
  imports Complex_Main "HOL-Library.Char_ord" "HOL-Library.List_Lexorder" "HOL-Library.Multiset"
begin

section \<open>Python slices\<close>

text \<open>
  The bounds of a slice \<open>[a:b]\<close> of a sequence of length \<open>n\<close>: a negative bound counts
  from the end, and both bounds are clipped to \<open>[0, n]\<close>. \<open>py_slice\<close> is the slice itself
  (empty when the bounds cross).
\<close>

definition slice_bounds :: "int \<Rightarrow> int \<Rightarrow> nat \<Rightarrow> nat \<times> nat" where
  "slice_bounds a b n =
     (let clip = (\<lambda>i. if i < 0 then max (i + int n) 0 else min i (int n))
      in (nat (clip a), nat (clip b)))"

definition py_slice :: "'a list \<Rightarrow> int \<Rightarrow> int \<Rightarrow> 'a list" where
  "py_slice xs a b = (let (lo, hi) = slice_bounds a b (length xs) in take (hi - lo) (drop lo xs))"

section \<open>The window writer: \<open>write_subseq\<close>\<close>

text \<open>
  \<open>write_subseq(full_seq_path, output_seq_path, startidx, endidx)\<close> writes a header line
  with the number of rows of the alignment and \<open>endidx - startidx\<close>, and then, for row
  \<open>idx\<close> of \<open>seqs['alignment'][:, startidx:endidx]\<close>, a line with the label \<open>idx + 1\<close>
  and a line with the row. The alignment is the list of its rows; the file is modelled by
  the two numbers of its header and the list of its (label, sequence) pairs.
\<close>

record subseq_file =
  shape_line :: "nat \<times> int"
  taxa :: "(nat \<times> string) list"

definition write_subseq :: "string list \<Rightarrow> int \<Rightarrow> int \<Rightarrow> subseq_file" where
  "write_subseq alignment startidx endidx =
     \<lparr> shape_line = (length alignment, endidx - startidx),
       taxa = map (\<lambda>(idx, seq). (idx + 1, seq))
                (enumerate 0 (map (\<lambda>row. py_slice row startidx endidx) alignment)) \<rparr>"

section \<open>The window extractor: \<open>produce_subseqs\<close>\<close>

text \<open>
  \<open>produce_subseqs(window_size, slide_interval, full_seq_path, directory_name)\<close> reads the
  number of columns \<open>total_len\<close> of the alignment, slides a window over the columns, calls
  \<open>write_subseq\<close> once per window and finally writes an index file holding three parallel
  arrays. Python integers are unbounded, so all offsets are of type \<open>int\<close>.

  The state of the function is the record below. A call
  \<open>write_subseq(path, directory/num_start_end.fa, start, end)\<close> opens the output file for
  writing; the state logs the call as the triple \<open>(num, start, end)\<close> that makes up the
  file name and decides the content (\<open>window_files\<close> below).
\<close>

type_synonym window = "int \<times> int \<times> int"

record wstate =
  startidx :: int
  num :: int
  index_nums :: "int list"
  index_starts :: "int list"
  index_ends :: "int list"
  written :: "window list"

text \<open>One iteration of the body of \<open>while startidx <= startlimit\<close>.\<close>

definition loop_body :: "int \<Rightarrow> int \<Rightarrow> wstate \<Rightarrow> wstate" where
  "loop_body window_size slide_interval st =
     (let endidx = startidx st + window_size in
      st\<lparr> index_nums := index_nums st @ [num st],
          index_starts := index_starts st @ [startidx st],
          index_ends := index_ends st @ [endidx],
          written := written st @ [(num st, startidx st, endidx)],
          startidx := startidx st + slide_interval,
          num := num st + 1 \<rparr>)"

text \<open>
  The loop itself. With \<open>slide_interval \<le> 0\<close> the Python loop never ends, so the model
  is a partial function: not returning is the value \<open>None\<close>.
\<close>

partial_function (option) window_loop :: "int \<Rightarrow> int \<Rightarrow> int \<Rightarrow> wstate \<Rightarrow> wstate option" where
  "window_loop window_size slide_interval startlimit st =
     (if startidx st \<le> startlimit
      then window_loop window_size slide_interval startlimit (loop_body window_size slide_interval st)
      else Some st)"

text \<open>The \<open>if startidx < total_len\<close> block after the loop (the remainder window).\<close>

definition remainder :: "int \<Rightarrow> int \<Rightarrow> wstate \<Rightarrow> wstate" where
  "remainder total_len startlimit st =
     (if startidx st < total_len
      then st\<lparr> index_nums := index_nums st @ [num st],
               index_starts := index_starts st @ [startlimit],
               index_ends := index_ends st @ [total_len],
               written := written st @ [(num st, startlimit, total_len)] \<rparr>
      else st)"

text \<open>
  What \<open>produce_subseqs\<close> leaves behind: the window files written and the three arrays
  of the index file \<open>_index.hdf5\<close>.
\<close>

record outputs =
  files :: "window list"
  nums :: "int list"
  starts :: "int list"
  ends :: "int list"

definition init_state :: wstate where
  "init_state = \<lparr> startidx = 0, num = 0, index_nums = [], index_starts = [],
                  index_ends = [], written = [] \<rparr>"

definition produce_subseqs :: "int \<Rightarrow> int \<Rightarrow> int \<Rightarrow> outputs option" where
  "produce_subseqs window_size slide_interval total_len =
     (let startlimit = total_len - window_size in
      case window_loop window_size slide_interval startlimit init_state of
        None \<Rightarrow> None
      | Some st \<Rightarrow>
          (let st' = remainder total_len startlimit st in
           Some \<lparr> files = written st', nums = index_nums st',
                  starts = index_starts st', ends = index_ends st' \<rparr>))"

text \<open>The window files in the output directory, for a given alignment.\<close>

definition window_files :: "string list \<Rightarrow> outputs \<Rightarrow> (window \<times> subseq_file) list" where
  "window_files alignment out =
     map (\<lambda>(num, startidx, endidx). ((num, startidx, endidx), write_subseq alignment startidx endidx))
       (files out)"

text \<open>The windows recorded in the index file, as (number, start, end) triples.\<close>

definition windows :: "outputs \<Rightarrow> window list" where
  "windows out = zip (nums out) (zip (starts out) (ends out))"

text \<open>A column \<open>p\<close> is covered when it lies in the half-open range of some window.\<close>

definition covered :: "window list \<Rightarrow> int \<Rightarrow> bool" where
  "covered ws p = (\<exists>w \<in> set ws. fst (snd w) \<le> p \<and> p < snd (snd w))"

declare window_loop.simps [code]

subsection \<open>The loop in closed form\<close>

text \<open>
  For the proofs, the windows emitted by the stride loop from window number \<open>n\<close> and
  start offset \<open>a\<close> are also given as a list, by a recursion that follows the loop; it
  stops at once when \<open>slide_interval < 1\<close>, where the loop itself need not return.
  \<open>after_loop\<close> is the state the loop leaves, and \<open>emitted\<close> adds the remainder window.
\<close>

function stride :: "int \<Rightarrow> int \<Rightarrow> int \<Rightarrow> int \<Rightarrow> int \<Rightarrow> window list" where
  "stride w s slim n a = (if 1 \<le> s \<and> a \<le> slim then (n, a, a + w) # stride w s slim (n + 1) (a + s) else [])"
  by pat_completeness auto
termination
  by (relation "measure (\<lambda>(w, s, slim, n, a). nat (slim - a + 1))") auto

declare stride.simps [simp del]

definition after_loop :: "window list \<Rightarrow> int \<Rightarrow> wstate \<Rightarrow> wstate" where
  "after_loop ws s st =
     st\<lparr> index_nums := index_nums st @ map fst ws,
         index_starts := index_starts st @ map (fst \<circ> snd) ws,
         index_ends := index_ends st @ map (snd \<circ> snd) ws,
         written := written st @ ws,
         startidx := startidx st + s * int (length ws),
         num := num st + int (length ws) \<rparr>"

definition emitted :: "int \<Rightarrow> int \<Rightarrow> int \<Rightarrow> window list" where
  "emitted w s T =
     (let ws = stride w s (T - w) 0 0 in
      ws @ (if s * int (length ws) < T then [(int (length ws), T - w, T)] else []))"

section \<open>The demographic model builder: \<open>Coalseq._get_demography\<close>\<close>

text \<open>
  The species tree is a toytree object; the builder reads, for every node, its integer
  \<open>idx\<close>, its \<open>height\<close> and its list of \<open>children\<close>. Heights and \<open>Ne\<close> are
  Python floats; they are modelled as reals, so rounding is outside the model (the
  properties proved below are about the number and the order of the events, which
  floating-point multiplication by a positive number preserves).
\<close>

datatype tree = Node (idx: int) (height: real) (children: "tree list")

text \<open>
  \<open>node.traverse()\<close> visits the nodes in level order (the default strategy): a queue
  that starts with the node; the front node is visited and its children are appended.
  \<open>node.get_descendants()\<close> is the same traversal without the node itself.
\<close>

function levelorder :: "tree list \<Rightarrow> tree list" where
  "levelorder [] = []"
| "levelorder (node # tovisit) = node # levelorder (tovisit @ children node)"
  by pat_completeness auto
termination
proof (relation "measure (size_list size)")
  show "wf (measure (size_list size))" by simp
next
  fix node :: tree and tovisit :: "tree list"
  show "(tovisit @ children node, node # tovisit) \<in> measure (size_list size)"
    by (cases node) simp
qed

definition traverse :: "tree \<Rightarrow> tree list" where
  "traverse t = levelorder [t]"

definition get_descendants :: "tree \<Rightarrow> tree list" where
  "get_descendants t = tl (traverse t)"

text \<open>
  The first loop tags every node with \<open>_schild\<close>: the least \<open>idx\<close> among all its
  descendants (internal ones included) when it has children, its own \<open>idx\<close> otherwise.
  The tag depends on the node only, so it is a function of the node.
\<close>

definition schild :: "tree \<Rightarrow> int" where
  "schild node =
     (if children node \<noteq> [] then Min (set (map idx (get_descendants node))) else idx node)"

text \<open>\<open>ms.MassMigration(time, source, dest)\<close>.\<close>

datatype event = MassMigration (time: real) (source: int) (dest: int)

text \<open>The event that the second loop builds for a node that has children.\<close>

definition divergence :: "real \<Rightarrow> tree \<Rightarrow> event" where
  "divergence Ne node =
     (let dest = Min (set (map schild (children node)));
          source = Max (set (map schild (children node)));
          time = height node * 2 * Ne
      in MassMigration time source dest)"

text \<open>
  Modelled from the spec: equality of msprime's \<open>MassMigration\<close> objects, which decides
  what \<open>demog.add\<close> does to the Python set \<open>demog\<close>; the class belongs to the msprime
  library. The spec gives the set value semantics: an identical (time, source, dest)
  triple is kept once. (If the objects were compared by identity nothing would ever be
  dropped; on the trees of the theorems below nothing is dropped either, see
  \<open>distinct_divergences\<close>.)
\<close>

definition set_add :: "'a \<Rightarrow> 'a list \<Rightarrow> 'a list" where
  "set_add x demog = (if x \<in> set demog then demog else demog @ [x])"

text \<open>The second loop, over the nodes of the traversal.\<close>

fun add_divergences :: "real \<Rightarrow> tree list \<Rightarrow> event list \<Rightarrow> event list" where
  "add_divergences Ne [] demog = demog"
| "add_divergences Ne (node # nodes) demog =
     add_divergences Ne nodes
       (if children node \<noteq> [] then set_add (divergence Ne node) demog else demog)"

text \<open>
  \<open>sorted(list(demog), key=lambda x: x.time)\<close>. The order in which \<open>list\<close> reads a
  Python set is not fixed by the program, so it is the parameter \<open>as_list\<close>, some
  rearrangement of the elements; the sort is stable (\<open>sort_key\<close>).
\<close>

definition get_demography :: "(event list \<Rightarrow> event list) \<Rightarrow> real \<Rightarrow> tree \<Rightarrow> event list" where
  "get_demography as_list Ne tree =
     sort_key time (as_list (add_divergences Ne (traverse tree) []))"

text \<open>\<open>self.ntips = len(self.tree)\<close>: the number of leaves.\<close>

definition ntips :: "tree \<Rightarrow> nat" where
  "ntips t = length (filter (\<lambda>n. children n = []) (traverse t))"

subsection \<open>Well-formed species trees\<close>

text \<open>
  A strictly bifurcating tree: every node has no child or two. An ultrametric tree in the
  sense of the data model: leaves at height 0 and no child higher than its parent. Node
  indices are unique. \<open>no_unary\<close> is the weaker shape condition that no node has exactly
  one child.
\<close>

fun bifurcating :: "tree \<Rightarrow> bool" where
  "bifurcating (Node i h cs) = ((cs = [] \<or> length cs = 2) \<and> list_all bifurcating cs)"

fun ultrametric :: "tree \<Rightarrow> bool" where
  "ultrametric (Node i h cs) =
     ((if cs = [] then h = 0 else list_all (\<lambda>c. height c \<le> h) cs) \<and> list_all ultrametric cs)"

definition unique_idx :: "tree \<Rightarrow> bool" where
  "unique_idx t = distinct (map idx (traverse t))"

definition valid_tree :: "tree \<Rightarrow> bool" where
  "valid_tree t = (bifurcating t \<and> ultrametric t \<and> unique_idx t)"

fun no_unary :: "tree \<Rightarrow> bool" where
  "no_unary (Node i h cs) = (length cs \<noteq> 1 \<and> list_all no_unary cs)"

text \<open>
  For the proofs: the nodes of a tree in preorder (the same nodes as \<open>traverse\<close>, in an
  order that follows the datatype), and the (source, dest) pair of a node's event.
\<close>

fun nodes :: "tree \<Rightarrow> tree list" where
  "nodes (Node i h cs) = Node i h cs # concat (map nodes cs)"

definition sd :: "tree \<Rightarrow> int \<times> int" where
  "sd n = (Max (set (map schild (children n))), Min (set (map schild (children n))))"

section \<open>The genealogy serializer: \<open>Coalseq.write_trees\<close>\<close>

text \<open>
  \<open>self.treeseq.trees()\<close> yields the local trees in genome order; of each tree the
  function uses \<open>tree.newick()\<close> and \<open>tree.get_length()\<close>, a float (modelled as a real).
  \<open>np.int64(x)\<close> converts a float by dropping its fractional part; the model covers
  \<open>|x| < 2^63\<close>, where the conversion is defined.
\<close>

record local_tree =
  get_length :: real
  newick :: string

definition np_int64 :: "real \<Rightarrow> int" where
  "np_int64 x = (if 0 \<le> x then \<lfloor>x\<rfloor> else \<lceil>x\<rceil>)"

text \<open>
  What \<open>write_trees\<close> leaves in the run directory: the files
  \<open>ms_genetrees/<counter>.phy\<close> with their contents, and the array \<open>lengths\<close> of
  \<open>ms_genetree_lengths.hdf5\<close>. Reloading the length table reads this array back.
\<close>

record run_dir =
  ms_genetrees :: "(nat \<times> string) list"
  ms_genetree_lengths :: "int list"

fun write_loop :: "local_tree list \<Rightarrow> nat \<Rightarrow> int list \<Rightarrow> (nat \<times> string) list \<Rightarrow> int list \<times> (nat \<times> string) list" where
  "write_loop [] counter lengths fs = (lengths, fs)"
| "write_loop (tree # rest) counter lengths fs =
     write_loop rest (counter + 1) (lengths @ [np_int64 (get_length tree)])
       (fs @ [(counter, newick tree)])"

definition write_trees :: "local_tree list \<Rightarrow> run_dir" where
  "write_trees treeseq =
     (case write_loop treeseq 0 [] [] of
        (lengths, fs) \<Rightarrow> \<lparr> ms_genetrees = fs, ms_genetree_lengths = lengths \<rparr>)"

text \<open>The simulated total length: the sum of the interval lengths.\<close>

definition total_length :: "local_tree list \<Rightarrow> real" where
  "total_length treeseq = sum_list (map get_length treeseq)"

section \<open>The alignment assembler: \<open>Coalseq.build_seqs\<close>\<close>

text \<open>
  The function reads the fragment files \<open>seqs/0.fa\<close>, \<open>seqs/1.fa\<close>, ... twice: a first
  loop adds up the lengths announced in the headers, a second loop sorts the lines of
  each fragment and copies the sequences into the array \<open>seq_arr\<close>. Every Python
  exception on the way is a value of \<open>py_error\<close>.
\<close>

datatype py_error = IOError | IndexError | ValueError | TypeError

text \<open>\<open>s.split(sep)\<close> for a separator of one character; the result is never empty.\<close>

fun py_split :: "char \<Rightarrow> string \<Rightarrow> string list" where
  "py_split sep [] = [[]]"
| "py_split sep (c # cs) =
     (let r = py_split sep cs in if c = sep then [] # r else (c # hd r) # tl r)"

text \<open>\<open>xs[i]\<close> for \<open>i \<ge> 0\<close>.\<close>

definition py_index :: "'a list \<Rightarrow> nat \<Rightarrow> py_error + 'a" where
  "py_index xs i = (if i < length xs then Inr (xs ! i) else Inl IndexError)"

text \<open>
  Python's built-in \<open>int\<close> on strings is a parameter \<open>int_of\<close> of the model (\<open>None\<close> for
  a \<open>ValueError\<close>). \<open>py_int\<close> is the instance used for concrete inputs: surrounding
  whitespace, an optional sign, then decimal digits.
\<close>

definition is_space :: "char \<Rightarrow> bool" where
  "is_space c = (c \<in> set [CHR '' '', CHR 0x09, CHR 0x0A, CHR 0x0B, CHR 0x0C, CHR 0x0D])"

definition digit_of :: "char \<Rightarrow> int option" where
  "digit_of c = (if CHR ''0'' \<le> c \<and> c \<le> CHR ''9'' then Some (int (of_char c) - 48) else None)"

definition py_strip :: "string \<Rightarrow> string" where
  "py_strip s = rev (dropWhile is_space (rev (dropWhile is_space s)))"

definition digits_value :: "string \<Rightarrow> int option" where
  "digits_value ds =
     (if ds \<noteq> [] \<and> list_all (\<lambda>c. digit_of c \<noteq> None) ds
      then Some (foldl (\<lambda>a c. 10 * a + the (digit_of c)) 0 ds) else None)"

definition py_int :: "string \<Rightarrow> int option" where
  "py_int s =
     (case py_strip s of
        [] \<Rightarrow> None
      | c # ds \<Rightarrow>
          if c = CHR ''-'' then map_option uminus (digits_value ds)
          else if c = CHR ''+'' then digits_value ds
          else digits_value (c # ds))"

text \<open>\<open>int(line.split(' ')[2])\<close>: the length field of a header line.\<close>

definition header_len :: "(string \<Rightarrow> int option) \<Rightarrow> string \<Rightarrow> py_error + int" where
  "header_len int_of line =
     (case py_index (py_split CHR '' '' line) 2 of
        Inl e \<Rightarrow> Inl e
      | Inr w \<Rightarrow> (case int_of w of None \<Rightarrow> Inl ValueError | Some n \<Rightarrow> Inr n))"

text \<open>
  The first loop, over the file numbers. \<open>dir i\<close> is the content of \<open>seqs/i.fa\<close>, if the
  file exists. The \<open>try\<close> block is \<open>header_len\<close> of the first line; the bare \<open>except\<close>
  catches whatever it raises, and its handler evaluates
  \<open>'there was an error: ' + tst.split(' ')\<close>, a string plus a list, which raises
  \<open>TypeError\<close>.
\<close>

fun first_pass :: "(string \<Rightarrow> int option) \<Rightarrow> (nat \<Rightarrow> string option) \<Rightarrow> nat list \<Rightarrow> int \<Rightarrow> py_error + int" where
  "first_pass int_of dir [] seq_len = Inr seq_len"
| "first_pass int_of dir (i # rest) seq_len =
     (case dir i of
        None \<Rightarrow> Inl IOError
      | Some content \<Rightarrow>
          (let tst = hd (py_split CHR 0x0A content) in
           case header_len int_of tst of
             Inr n \<Rightarrow> first_pass int_of dir rest (seq_len + n)
           | Inl e \<Rightarrow> Inl TypeError))"

text \<open>
  \<open>row[a:b] = vals\<close> on a numpy row: the bounds are those of the slice
  (\<open>slice_bounds\<close>), the values must be as many as the slice is long, or a single value
  that is repeated.
\<close>

definition assign_slice :: "'a list \<Rightarrow> int \<Rightarrow> int \<Rightarrow> 'a list \<Rightarrow> py_error + 'a list" where
  "assign_slice row a b vals =
     (let (lo, hi) = slice_bounds a b (length row); m = hi - lo in
      if length vals = m then Inr (take lo row @ vals @ drop (lo + m) row)
      else if length vals = 1 then Inr (take lo row @ replicate m (hd vals) @ drop (lo + m) row)
      else Inl ValueError)"

text \<open>
  \<open>for idx, indiv_seq in enumerate(myseq): seq_arr[idx][counter:(counter+lenseq)] =
  list(indiv_seq[10:])\<close>; the row number \<open>idx\<close> is \<open>i\<close> here.
\<close>

fun fill_rows :: "string list \<Rightarrow> nat \<Rightarrow> int \<Rightarrow> int \<Rightarrow> string list \<Rightarrow> py_error + string list" where
  "fill_rows [] i counter lenseq seq_arr = Inr seq_arr"
| "fill_rows (indiv_seq # rest) i counter lenseq seq_arr =
     (if length seq_arr \<le> i then Inl IndexError
      else case assign_slice (seq_arr ! i) counter (counter + lenseq) (drop 10 indiv_seq) of
             Inl e \<Rightarrow> Inl e
           | Inr row \<Rightarrow> fill_rows rest (i + 1) counter lenseq (seq_arr[i := row]))"

text \<open>
  The second loop. \<open>np.sort(f.read().split('\n')[:-1])\<close> sorts all lines, the header
  included, as byte strings (lexicographically; the order on \<open>string\<close> here); the first
  sorted line is taken for the header.
\<close>

fun second_pass :: "(string \<Rightarrow> int option) \<Rightarrow> (nat \<Rightarrow> string option) \<Rightarrow> nat list \<Rightarrow> int \<Rightarrow> string list \<Rightarrow> py_error + string list" where
  "second_pass int_of dir [] counter seq_arr = Inr seq_arr"
| "second_pass int_of dir (i # rest) counter seq_arr =
     (case dir i of
        None \<Rightarrow> Inl IOError
      | Some content \<Rightarrow>
          (case sort (butlast (py_split CHR 0x0A content)) of
             [] \<Rightarrow> Inl IndexError
           | header # myseq \<Rightarrow>
               (case header_len int_of header of
                  Inl e \<Rightarrow> Inl e
                | Inr lenseq \<Rightarrow>
                    (case fill_rows myseq 0 counter lenseq seq_arr of
                       Inl e \<Rightarrow> Inl e
                     | Inr seq_arr' \<Rightarrow> second_pass int_of dir rest (counter + lenseq) seq_arr'))))"

text \<open>
  \<open>build_seqs\<close> up to the array that it then saves: \<open>np.zeros((ntips, seq_len))\<close> of
  one-byte strings (zero bytes; a negative \<open>seq_len\<close> is a \<open>ValueError\<close>), filled by the
  second loop. Row \<open>idx\<close> of the result is written out under the taxon label
  \<open>str(idx+1)\<close>.
\<close>

definition build_seqs :: "(string \<Rightarrow> int option) \<Rightarrow> (nat \<Rightarrow> string option) \<Rightarrow> nat \<Rightarrow> nat \<Rightarrow> py_error + string list" where
  "build_seqs int_of dir num_trees self_ntips =
     (case first_pass int_of dir [0..<num_trees] 0 of
        Inl e \<Rightarrow> Inl e
      | Inr seq_len \<Rightarrow>
          if seq_len < 0 then Inl ValueError
          else second_pass int_of dir [0..<num_trees] 0
                 (replicate self_ntips (replicate (nat seq_len) (CHR 0x00))))"

text \<open>A text file given by its lines, each ended by a newline.\<close>

definition unlines :: "string list \<Rightarrow> string" where
  "unlines ls = concat (map (\<lambda>l. l @ [CHR 0x0A]) ls)"

section \<open>Proofs: the window extractor\<close>

lemma window_loop_stride_aux:
  "1 \<le> s \<Longrightarrow> num st = n \<Longrightarrow> startidx st = a \<Longrightarrow>
   window_loop w s slim st = Some (after_loop (stride w s slim n a) s st)"
proof (induction w s slim n a arbitrary: st rule: stride.induct)
  case (1 w s slim n a)
  show ?case
  proof (cases "a \<le> slim")
    case True
    let ?st' = "loop_body w s st"
    have n': "num ?st' = n + 1" and a': "startidx ?st' = a + s"
      using 1(3,4) by (simp_all add: loop_body_def Let_def)
    have "window_loop w s slim st = window_loop w s slim ?st'"
      using True 1(4) by (subst window_loop.simps) simp
    also have "\<dots> = Some (after_loop (stride w s slim (n + 1) (a + s)) s ?st')"
      using 1(1)[OF _ 1(2) n' a'] True 1(2) by simp
    also have "after_loop (stride w s slim (n + 1) (a + s)) s ?st'
             = after_loop (stride w s slim n a) s st"
      using True 1(2,3,4)
      by (subst (2) stride.simps) (simp add: after_loop_def loop_body_def Let_def algebra_simps)
    finally show ?thesis .
  next
    case False
    then have "stride w s slim n a = []" by (subst stride.simps) simp
    moreover have "window_loop w s slim st = Some st"
      using False 1(4) by (subst window_loop.simps) simp
    ultimately show ?thesis by (simp add: after_loop_def)
  qed
qed

lemma stride_width: "x \<in> set (stride w s slim n a) \<Longrightarrow> snd (snd x) - fst (snd x) = w"
proof (induction w s slim n a rule: stride.induct)
  case (1 w s slim n a)
  from 1(2) have "1 \<le> s \<and> a \<le> slim \<and> (x = (n, a, a + w) \<or> x \<in> set (stride w s slim (n + 1) (a + s)))"
    by (subst (asm) stride.simps) (simp split: if_splits)
  then show ?case using 1(1) by auto
qed

lemma stride_past_limit: "1 \<le> s \<Longrightarrow> slim < a + s * int (length (stride w s slim n a))"
proof (induction w s slim n a rule: stride.induct)
  case (1 w s slim n a)
  show ?case
  proof (cases "a \<le> slim")
    case True
    then show ?thesis using 1 by (subst stride.simps) (simp add: algebra_simps)
  next
    case False
    then show ?thesis by (subst stride.simps) simp
  qed
qed

lemma stride_last:
  "stride w s slim n a \<noteq> [] \<Longrightarrow>
   last (stride w s slim n a) =
     (n + int (length (stride w s slim n a)) - 1,
      a + s * (int (length (stride w s slim n a)) - 1),
      a + s * (int (length (stride w s slim n a)) - 1) + w)
   \<and> a + s * (int (length (stride w s slim n a)) - 1) \<le> slim"
proof (induction w s slim n a rule: stride.induct)
  case (1 w s slim n a)
  from 1(2) have c: "1 \<le> s \<and> a \<le> slim"
    by (subst (asm) stride.simps) (simp split: if_splits)
  then have eq: "stride w s slim n a = (n, a, a + w) # stride w s slim (n + 1) (a + s)"
    by (subst stride.simps) simp
  show ?case
  proof (cases "stride w s slim (n + 1) (a + s) = []")
    case True
    then show ?thesis using eq c by simp
  next
    case False
    from 1(1)[OF c False] show ?thesis using eq False by (simp add: algebra_simps)
  qed
qed

lemma stride_covered:
  "1 \<le> s \<Longrightarrow> s \<le> w \<Longrightarrow> a \<le> slim \<Longrightarrow> a \<le> p \<Longrightarrow>
   p < a + s * (int (length (stride w s slim n a)) - 1) + w \<Longrightarrow>
   covered (stride w s slim n a) p"
proof (induction w s slim n a rule: stride.induct)
  case (1 w s slim n a)
  from 1(2,4) have eq: "stride w s slim n a = (n, a, a + w) # stride w s slim (n + 1) (a + s)"
    by (subst stride.simps) simp
  show ?case
  proof (cases "p < a + w")
    case True
    then show ?thesis using 1(5) eq by (simp add: covered_def)
  next
    case False
    with 1(3) have lo: "a + s \<le> p" by simp
    have nonempty: "a + s \<le> slim"
    proof (rule ccontr)
      assume "\<not> a + s \<le> slim"
      then have "stride w s slim (n + 1) (a + s) = []" by (subst stride.simps) simp
      with 1(6) eq False show False by simp
    qed
    have "p < a + s + s * (int (length (stride w s slim (n + 1) (a + s))) - 1) + w"
      using 1(6) eq by (simp add: algebra_simps)
    with lo nonempty have "covered (stride w s slim (n + 1) (a + s)) p"
      using 1(1)[OF _ 1(2,3)] 1(2,4) by simp
    then show ?thesis using eq by (auto simp: covered_def)
  qed
qed

lemma produce_subseqs_emitted:
  assumes "1 \<le> s"
  shows "produce_subseqs w s T =
           Some \<lparr> files = emitted w s T, nums = map fst (emitted w s T),
                  starts = map (fst \<circ> snd) (emitted w s T),
                  ends = map (snd \<circ> snd) (emitted w s T) \<rparr>"
proof -
  have "window_loop w s (T - w) init_state
          = Some (after_loop (stride w s (T - w) 0 0) s init_state)"
    by (rule window_loop_stride_aux[OF assms]) (simp_all add: init_state_def)
  then show ?thesis
    by (simp add: produce_subseqs_def emitted_def after_loop_def remainder_def
        init_state_def Let_def)
qed

lemma windows_files:
  "windows \<lparr> files = ws, nums = map fst ws, starts = map (fst \<circ> snd) ws,
             ends = map (snd \<circ> snd) ws \<rparr> = ws"
  by (induction ws) (auto simp: windows_def)

lemma emitted_width: "x \<in> set (emitted w s T) \<Longrightarrow> snd (snd x) - fst (snd x) = w"
  by (auto simp: emitted_def Let_def dest: stride_width split: if_splits)

lemma emitted_covered:
  assumes "1 \<le> s" "s \<le> w" "w \<le> T" "0 \<le> p" "p < T"
  shows "covered (emitted w s T) p"
proof -
  let ?ws = "stride w s (T - w) 0 0"
  let ?e = "s * (int (length ?ws) - 1) + w"
  have past: "T - w < s * int (length ?ws)"
    using stride_past_limit[OF assms(1), of "T - w" 0 w 0] by simp
  have reach: "p < ?e \<Longrightarrow> covered ?ws p"
    using stride_covered[OF assms(1,2), of 0 "T - w" p 0] assms(3,4) by simp
  show ?thesis
  proof (cases "p < ?e")
    case True
    from reach[OF True] show ?thesis by (auto simp: emitted_def covered_def Let_def)
  next
    case False
    then have "s * int (length ?ws) < T" using assms(2,5) by (simp add: algebra_simps)
    moreover have "T - w \<le> p" using False past assms(2) by (simp add: algebra_simps)
    ultimately show ?thesis using assms(5) by (simp add: emitted_def covered_def Let_def)
  qed
qed

lemma emitted_last_end:
  assumes "1 \<le> s" "s \<le> w" "w \<le> T"
  shows "emitted w s T \<noteq> [] \<and> snd (snd (last (emitted w s T))) = T"
proof -
  let ?ws = "stride w s (T - w) 0 0"
  have ne: "?ws \<noteq> []" using assms by (subst stride.simps) simp
  have past: "T - w < s * int (length ?ws)"
    using stride_past_limit[OF assms(1), of "T - w" 0 w 0] by simp
  show ?thesis
  proof (cases "s * int (length ?ws) < T")
    case True
    then show ?thesis by (simp add: emitted_def Let_def)
  next
    case False
    have "snd (snd (last ?ws)) = s * (int (length ?ws) - 1) + w"
      and "s * (int (length ?ws) - 1) \<le> T - w"
      using stride_last[OF ne] by simp_all
    then have "snd (snd (last ?ws)) = T" using False assms(2) by (simp add: algebra_simps)
    then show ?thesis using False ne by (simp add: emitted_def Let_def)
  qed
qed

lemma emitted_full_width:
  assumes "1 \<le> s"
  shows "emitted T s T = (if s < T then [(0, 0, T), (1, 0, T)] else [(0, 0, T)])"
proof -
  have "stride T s 0 1 s = []" using assms by (subst stride.simps) simp
  then have "stride T s 0 0 0 = [(0, 0, T)]" using assms by (subst stride.simps) simp
  then show ?thesis by (simp add: emitted_def)
qed

lemma produce_subseqs_oversize:
  assumes "T < w"
  shows "produce_subseqs w s T =
           Some (if 0 < T
                 then \<lparr> files = [(0, T - w, T)], nums = [0], starts = [T - w], ends = [T] \<rparr>
                 else \<lparr> files = [], nums = [], starts = [], ends = [] \<rparr>)"
proof -
  have "window_loop w s (T - w) init_state = Some init_state"
    using assms by (subst window_loop.simps) (simp add: init_state_def)
  then show ?thesis
    by (simp add: produce_subseqs_def remainder_def init_state_def Let_def)
qed

lemma stride_bounds:
  "x \<in> set (stride w s slim n a) \<Longrightarrow> a \<le> fst (snd x) \<and> fst (snd x) \<le> slim"
proof (induction w s slim n a rule: stride.induct)
  case (1 w s slim n a)
  from 1(2) have "1 \<le> s \<and> a \<le> slim \<and> (x = (n, a, a + w) \<or> x \<in> set (stride w s slim (n + 1) (a + s)))"
    by (subst (asm) stride.simps) (simp split: if_splits)
  then show ?case using 1(1) by fastforce
qed

lemma emitted_in_range:
  assumes "w \<le> T" "x \<in> set (emitted w s T)"
  shows "0 \<le> fst (snd x) \<and> snd (snd x) \<le> T"
proof -
  from assms(2) consider "x \<in> set (stride w s (T - w) 0 0)" | "x = (int (length (stride w s (T - w) 0 0)), T - w, T)"
    by (auto simp: emitted_def Let_def split: if_splits)
  then show ?thesis
  proof cases
    case 1
    from stride_bounds[OF 1] stride_width[OF 1] show ?thesis by simp
  next
    case 2
    then show ?thesis using assms(1) by simp
  qed
qed

lemma window_loop_diverges_aux:
  assumes "window_loop w s slim st = Some y"
  shows "s < 1 \<longrightarrow> startidx st \<le> slim \<longrightarrow> False"
proof (rule window_loop.raw_induct[where P = "\<lambda>w s slim st y. s < 1 \<longrightarrow> startidx st \<le> slim \<longrightarrow> False", OF _ assms])
  fix f :: "int \<Rightarrow> int \<Rightarrow> int \<Rightarrow> wstate \<Rightarrow> wstate option" and w s slim st y
  assume IH: "\<And>w s slim st y. f w s slim st = Some y \<Longrightarrow> s < 1 \<longrightarrow> startidx st \<le> slim \<longrightarrow> False"
    and step: "(if startidx st \<le> slim then f w s slim (loop_body w s st) else Some st) = Some y"
  show "s < 1 \<longrightarrow> startidx st \<le> slim \<longrightarrow> False"
  proof (intro impI)
    assume s: "s < 1" and le: "startidx st \<le> slim"
    from step le have "f w s slim (loop_body w s st) = Some y" by simp
    from IH[OF this] s le show False by (simp add: loop_body_def Let_def)
  qed
qed

lemma produce_subseqs_diverges:
  assumes "slide_interval < 1" "window_size \<le> total_len"
  shows "produce_subseqs window_size slide_interval total_len = None"
proof (cases "window_loop window_size slide_interval (total_len - window_size) init_state")
  case None
  then show ?thesis by (simp add: produce_subseqs_def)
next
  case (Some y)
  from window_loop_diverges_aux[OF Some] assms show ?thesis by (simp add: init_state_def)
qed

lemma written_loop_body:
  "written (loop_body w s st) = written st @ [(num st, startidx st, startidx st + w)]"
  by (simp add: loop_body_def Let_def)

lemma written_iterate:
  "x \<in> set (written ((loop_body w s ^^ k) st)) \<Longrightarrow>
   x \<in> set (written st) \<or> snd (snd x) - fst (snd x) = w"
proof (induction k arbitrary: x)
  case 0
  then show ?case by simp
next
  case (Suc k)
  from Suc.prems consider "x \<in> set (written ((loop_body w s ^^ k) st))"
    | "snd (snd x) - fst (snd x) = w"
    by (auto simp: written_loop_body)
  then show ?case using Suc.IH by cases auto
qed

lemma length_py_slice:
  "0 \<le> a \<Longrightarrow> a \<le> b \<Longrightarrow> b \<le> int (length xs) \<Longrightarrow> int (length (py_slice xs a b)) = b - a"
proof -
  assume a: "0 \<le> a" "a \<le> b" "b \<le> int (length xs)"
  then have "slice_bounds a b (length xs) = (nat a, nat b)"
    by (simp add: slice_bounds_def Let_def)
  then have "length (py_slice xs a b) = min (length xs - nat a) (nat b - nat a)"
    by (simp add: py_slice_def)
  with a show ?thesis by linarith
qed

lemma taxa_write_subseq:
  "map snd (taxa (write_subseq alignment a b)) = map (\<lambda>row. py_slice row a b) alignment"
  by (simp add: write_subseq_def enumerate_eq_zip comp_def case_prod_unfold map_snd_zip_take)

lemma window_files_width:
  assumes rows: "\<forall>row \<in> set alignment. int (length row) = total_len"
    and wins: "\<forall>x \<in> set (files out). snd (snd x) - fst (snd x) = window_size \<and>
                 0 \<le> fst (snd x) \<and> snd (snd x) \<le> total_len"
    and wnn: "0 \<le> window_size"
    and f: "f \<in> set (window_files alignment out)"
  shows "snd (shape_line (snd f)) = window_size \<and>
         (\<forall>line \<in> set (taxa (snd f)). int (length (snd line)) = window_size)"
proof -
  from f obtain n a b where x: "(n, a, b) \<in> set (files out)"
    and fe: "f = ((n, a, b), write_subseq alignment a b)"
    by (auto simp: window_files_def)
  from wins x have w: "b - a = window_size" "0 \<le> a" "b \<le> total_len" by auto
  have "int (length s) = window_size" if "s \<in> set (map snd (taxa (write_subseq alignment a b)))" for s
  proof -
    from that obtain row where "row \<in> set alignment" "s = py_slice row a b"
      unfolding taxa_write_subseq by auto
    with rows w wnn length_py_slice[of a b row] show ?thesis by simp
  qed
  then show ?thesis using w(1) fe by (auto simp: write_subseq_def)
qed

subsection \<open>Claims about the window extractor\<close>

text \<open>
  Claim C3. For an alignment of 1000 columns, \<open>window_size = 400\<close> and
  \<open>slide_interval = 300\<close> the extractor writes exactly four windows, in this order:
  (0,0,400), (1,300,700), (2,600,1000) and (3,600,1000). The last one comes from the
  remainder block, which starts at \<open>startlimit\<close> and so repeats the range of window 2.
\<close>

theorem window_scenario:
  "produce_subseqs 400 300 1000 =
     Some \<lparr> files = [(0, 0, 400), (1, 300, 700), (2, 600, 1000), (3, 600, 1000)],
            nums = [0, 1, 2, 3], starts = [0, 300, 600, 600],
            ends = [400, 700, 1000, 1000] \<rparr>"
  by code_simp

text \<open>
  Claim C1, amended. The claim asks for full coverage for every \<open>slide_interval \<ge> 1\<close>.
  The code gives it when moreover \<open>slide_interval \<le> window_size\<close>: then the extractor
  returns, every column of \<open>[0, total_len)\<close> lies in some emitted window, and the last
  emitted window ends at \<open>total_len\<close>.
\<close>

theorem window_coverage:
  assumes "1 \<le> slide_interval" "slide_interval \<le> window_size" "window_size \<le> total_len"
  shows "\<exists>out. produce_subseqs window_size slide_interval total_len = Some out \<and>
           (\<forall>p. 0 \<le> p \<and> p < total_len \<longrightarrow> covered (windows out) p) \<and>
           windows out \<noteq> [] \<and> snd (snd (last (windows out))) = total_len"
  using produce_subseqs_emitted[OF assms(1), of window_size total_len]
    emitted_covered[OF assms] emitted_last_end[OF assms]
  by (simp add: windows_files)

theorem window_coverage_witness:
  "(1::int) \<le> 300 \<and> (300::int) \<le> 400 \<and> (400::int) \<le> 1000 \<and>
   covered (windows (the (produce_subseqs 400 300 1000))) 650 \<and>
   snd (snd (last (windows (the (produce_subseqs 400 300 1000))))) = 1000"
  using window_coverage[of 300 400 1000] by auto

text \<open>
  Claim C1 as stated fails when the stride is longer than the window: with 1000 columns,
  \<open>window_size = 100\<close> and \<open>slide_interval = 350\<close> the windows are (0,0,100),
  (1,350,450) and (2,700,800); the next start 1050 is not below 1000, so there is no
  remainder window. Column 100 is in no window and the last window ends at 800.
\<close>

theorem window_coverage_counterexample:
  "(100::int) \<le> 1000 \<and> (1::int) \<le> 350 \<and>
   produce_subseqs 100 350 1000 =
     Some \<lparr> files = [(0, 0, 100), (1, 350, 450), (2, 700, 800)],
            nums = [0, 1, 2], starts = [0, 350, 700], ends = [100, 450, 800] \<rparr> \<and>
   \<not> covered (windows \<lparr> files = [(0, 0, 100), (1, 350, 450), (2, 700, 800)],
            nums = [0, 1, 2], starts = [0, 350, 700], ends = [100, 450, 800] \<rparr>) 100 \<and>
   snd (snd (last (windows \<lparr> files = [(0, 0, 100), (1, 350, 450), (2, 700, 800)],
            nums = [0, 1, 2], starts = [0, 350, 700], ends = [100, 450, 800] \<rparr>))) \<noteq> 1000"
proof -
  have "produce_subseqs 100 350 1000 =
     Some \<lparr> files = [(0, 0, 100), (1, 350, 450), (2, 700, 800)],
            nums = [0, 1, 2], starts = [0, 350, 700], ends = [100, 450, 800] \<rparr>"
    by code_simp
  then show ?thesis by (simp add: windows_def covered_def)
qed

text \<open>
  Claim C4, amended. \<open>produce_subseqs\<close> has no check of \<open>window_size\<close> against
  \<open>total_len\<close> and raises nothing. When \<open>window_size > total_len\<close> the loop body never
  runs (for any \<open>slide_interval\<close>); if \<open>total_len > 0\<close> the remainder block calls
  \<open>write_subseq\<close> for the single window \<open>(0, total_len - window_size, total_len)\<close>,
  whose start offset is negative, and records it in the index; if \<open>total_len \<le> 0\<close> only
  an empty index is written.
\<close>

theorem oversize_window:
  assumes "total_len < window_size"
  shows "produce_subseqs window_size slide_interval total_len =
           Some (if 0 < total_len
                 then \<lparr> files = [(0, total_len - window_size, total_len)], nums = [0],
                        starts = [total_len - window_size], ends = [total_len] \<rparr>
                 else \<lparr> files = [], nums = [], starts = [], ends = [] \<rparr>)"
  by (rule produce_subseqs_oversize[OF assms])

theorem oversize_window_witness:
  "(100::int) < 150 \<and>
   produce_subseqs 150 10 100 =
     Some \<lparr> files = [(0, -50, 100)], nums = [0], starts = [-50], ends = [100] \<rparr>"
  using oversize_window[of 100 150 10] by simp

text \<open>
  Claim C4 as stated fails: for 100 columns and \<open>window_size = 150\<close> the extractor does
  not fail, and the file of the window (0,-50,100) is written.
\<close>

theorem oversize_window_counterexample:
  "(100::int) < 150 \<and>
   files (the (produce_subseqs 150 10 100)) = [(0, -50, 100)] \<and>
   produce_subseqs 150 10 100 \<noteq> None"
  by code_simp

text \<open>
  Claim C5, amended. With \<open>window_size = total_len\<close> and \<open>slide_interval \<ge> 1\<close> the
  first window is \<open>(0, 0, total_len)\<close>. It is the only one exactly when
  \<open>slide_interval \<ge> total_len\<close>; when \<open>slide_interval < total_len\<close> the remainder block
  adds a second window \<open>(1, 0, total_len)\<close> over the same range.
\<close>

theorem full_width_window:
  assumes "1 \<le> slide_interval"
  shows "\<exists>out. produce_subseqs total_len slide_interval total_len = Some out \<and>
           windows out = (if slide_interval < total_len
                          then [(0, 0, total_len), (1, 0, total_len)]
                          else [(0, 0, total_len)]) \<and>
           files out = windows out"
  using produce_subseqs_emitted[OF assms, of total_len total_len] emitted_full_width[OF assms]
  by (simp add: windows_files)

theorem full_width_window_witness:
  "(1::int) \<le> 1000 \<and> windows (the (produce_subseqs 1000 1000 1000)) = [(0, 0, 1000)]"
  using full_width_window[of 1000 1000] by auto

text \<open>
  Claim C5 as stated fails: for 1000 columns, \<open>window_size = 1000\<close> and
  \<open>slide_interval = 100\<close> two windows are written.
\<close>

theorem full_width_window_counterexample:
  "(1::int) \<le> 100 \<and>
   produce_subseqs 1000 100 1000 =
     Some \<lparr> files = [(0, 0, 1000), (1, 0, 1000)], nums = [0, 1], starts = [0, 0],
            ends = [1000, 1000] \<rparr>"
  by code_simp

text \<open>
  Claim C10. Under \<open>window_size \<le> total_len\<close> every window that is written, the
  remainder window included, spans exactly \<open>window_size\<close> columns. After any number of
  loop iterations all windows written so far have this width. When
  \<open>slide_interval \<ge> 1\<close> the extractor returns, the files written are the windows of the
  index, each of width \<open>window_size\<close> and with its range inside \<open>[0, total_len]\<close>;
  for every alignment of \<open>total_len\<close> columns, the header of each window file announces
  \<open>window_size\<close> columns and each of its sequence lines has exactly that many. When
  \<open>slide_interval < 1\<close> the loop never ends.
\<close>

theorem window_width:
  assumes "window_size \<le> total_len"
  shows "(\<forall>k. \<forall>x \<in> set (written ((loop_body window_size slide_interval ^^ k) init_state)).
            snd (snd x) - fst (snd x) = window_size) \<and>
         (1 \<le> slide_interval \<longrightarrow>
            (\<exists>out. produce_subseqs window_size slide_interval total_len = Some out \<and>
               files out = windows out \<and>
               (\<forall>x \<in> set (files out).
                  snd (snd x) - fst (snd x) = window_size \<and>
                  0 \<le> fst (snd x) \<and> snd (snd x) \<le> total_len) \<and>
               (0 \<le> window_size \<longrightarrow>
                  (\<forall>alignment. (\<forall>row \<in> set alignment. int (length row) = total_len) \<longrightarrow>
                     (\<forall>f \<in> set (window_files alignment out).
                        snd (shape_line (snd f)) = window_size \<and>
                        (\<forall>line \<in> set (taxa (snd f)). int (length (snd line)) = window_size)))))) \<and>
         (slide_interval < 1 \<longrightarrow>
            produce_subseqs window_size slide_interval total_len = None)"
proof (intro conjI allI ballI impI)
  fix k x
  assume "x \<in> set (written ((loop_body window_size slide_interval ^^ k) init_state))"
  from written_iterate[OF this] show "snd (snd x) - fst (snd x) = window_size"
    by (simp add: init_state_def)
next
  assume s: "1 \<le> slide_interval"
  let ?out = "\<lparr> files = emitted window_size slide_interval total_len,
                 nums = map fst (emitted window_size slide_interval total_len),
                 starts = map (fst \<circ> snd) (emitted window_size slide_interval total_len),
                 ends = map (snd \<circ> snd) (emitted window_size slide_interval total_len) \<rparr>"
  have ret: "produce_subseqs window_size slide_interval total_len = Some ?out"
    by (rule produce_subseqs_emitted[OF s])
  have same: "files ?out = windows ?out" by (simp add: windows_files)
  have wins: "\<forall>x \<in> set (files ?out). snd (snd x) - fst (snd x) = window_size \<and>
                 0 \<le> fst (snd x) \<and> snd (snd x) \<le> total_len"
    using emitted_width[of _ window_size slide_interval total_len]
      emitted_in_range[OF assms, of _ slide_interval] by simp
  have cols: "snd (shape_line (snd f)) = window_size \<and>
              (\<forall>line \<in> set (taxa (snd f)). int (length (snd line)) = window_size)"
    if "0 \<le> window_size" "\<forall>row \<in> set alignment. int (length row) = total_len"
       "f \<in> set (window_files alignment ?out)" for alignment f
    by (rule window_files_width[OF that(2) wins that(1,3)])
  show "\<exists>out. produce_subseqs window_size slide_interval total_len = Some out \<and>
               files out = windows out \<and>
               (\<forall>x \<in> set (files out).
                  snd (snd x) - fst (snd x) = window_size \<and>
                  0 \<le> fst (snd x) \<and> snd (snd x) \<le> total_len) \<and>
               (0 \<le> window_size \<longrightarrow>
                  (\<forall>alignment. (\<forall>row \<in> set alignment. int (length row) = total_len) \<longrightarrow>
                     (\<forall>f \<in> set (window_files alignment out).
                        snd (shape_line (snd f)) = window_size \<and>
                        (\<forall>line \<in> set (taxa (snd f)). int (length (snd line)) = window_size))))"
    using ret same wins cols by blast
next
  assume "slide_interval < 1"
  then show "produce_subseqs window_size slide_interval total_len = None"
    using assms by (rule produce_subseqs_diverges)
qed

theorem window_width_witness:
  "(4::int) \<le> 10 \<and>
   written ((loop_body 4 3 ^^ 2) init_state) = [(0, 0, 4), (1, 3, 7)] \<and>
   files (the (produce_subseqs 4 3 10)) = [(0, 0, 4), (1, 3, 7), (2, 6, 10), (3, 6, 10)] \<and>
   files (the (produce_subseqs 4 3 10)) = windows (the (produce_subseqs 4 3 10)) \<and>
   list_all (\<lambda>x. snd (snd x) - fst (snd x) = 4 \<and> 0 \<le> fst (snd x) \<and> snd (snd x) \<le> 10)
     (files (the (produce_subseqs 4 3 10))) \<and>
   list_all (\<lambda>f. snd (shape_line (snd f)) = 4 \<and> list_all (\<lambda>line. int (length (snd line)) = 4) (taxa (snd f)))
     (window_files [''ACGTACGTAC'', ''TTGGCCAATT''] (the (produce_subseqs 4 3 10))) \<and>
   map (\<lambda>f. map snd (taxa (snd f)))
     (window_files [''ACGTACGTAC'', ''TTGGCCAATT''] (the (produce_subseqs 4 3 10)))
     = [[''ACGT'', ''TTGG''], [''TACG'', ''GCCA''], [''GTAC'', ''AATT''], [''GTAC'', ''AATT'']] \<and>
   produce_subseqs 4 0 10 = None"
proof -
  have i: "written ((loop_body 4 3 ^^ 2) init_state) = [(0, 0, 4), (1, 3, 7)]"
    by (simp add: numeral_2_eq_2 loop_body_def init_state_def Let_def)
  have p: "produce_subseqs 4 3 10 = Some \<lparr> files = [(0, 0, 4), (1, 3, 7), (2, 6, 10), (3, 6, 10)],
      nums = [0, 1, 2, 3], starts = [0, 3, 6, 6], ends = [4, 7, 10, 10] \<rparr>"
    by code_simp
  have c: "map (\<lambda>f. map snd (taxa (snd f)))
     (window_files [''ACGTACGTAC'', ''TTGGCCAATT''] \<lparr> files = [(0, 0, 4), (1, 3, 7), (2, 6, 10), (3, 6, 10)],
      nums = [0, 1, 2, 3], starts = [0, 3, 6, 6], ends = [4, 7, 10, 10] \<rparr>)
     = [[''ACGT'', ''TTGG''], [''TACG'', ''GCCA''], [''GTAC'', ''AATT''], [''GTAC'', ''AATT'']]"
    by code_simp
  have r: "\<forall>row \<in> set [''ACGTACGTAC'', ''TTGGCCAATT'']. int (length row) = 10" by simp
  let ?out = "\<lparr> files = [(0, 0, 4), (1, 3, 7), (2, 6, 10), (3, 6, 10)],
      nums = [0, 1, 2, 3], starts = [0, 3, 6, 6], ends = [4, 7, 10, 10] \<rparr>"
  from window_width[of 4 10 3] p
  have a: "\<forall>alignment. (\<forall>row \<in> set alignment. int (length row) = 10) \<longrightarrow>
             (\<forall>f \<in> set (window_files alignment ?out).
                snd (shape_line (snd f)) = 4 \<and>
                (\<forall>line \<in> set (taxa (snd f)). int (length (snd line)) = 4))"
    by simp
  from a r have b: "\<forall>f \<in> set (window_files [''ACGTACGTAC'', ''TTGGCCAATT''] ?out).
                snd (shape_line (snd f)) = 4 \<and>
                (\<forall>line \<in> set (taxa (snd f)). int (length (snd line)) = 4)"
    by blast
  from window_width[of 4 10 0] have d: "produce_subseqs 4 0 10 = None" by simp
  from b d i p c show ?thesis
    by (simp add: list_all_iff windows_def)
qed

section \<open>Proofs: the demographic model builder\<close>

lemma nodes_unfold: "nodes t = t # concat (map nodes (children t))"
  by (cases t) simp

lemma self_in_nodes: "t \<in> set (nodes t)"
  by (subst nodes_unfold) simp

lemma mset_levelorder: "mset (levelorder ts) = mset (concat (map nodes ts))"
proof (induction ts rule: levelorder.induct)
  case 1
  show ?case by simp
next
  case (2 node tovisit)
  have "mset (levelorder (node # tovisit)) = add_mset node (mset (levelorder (tovisit @ children node)))"
    by simp
  also have "\<dots> = add_mset node (mset (concat (map nodes (tovisit @ children node))))"
    using 2 by simp
  also have "\<dots> = mset (nodes node) + mset (concat (map nodes tovisit))"
    using nodes_unfold[of node] by simp
  finally show ?case by simp
qed

lemma mset_traverse: "mset (traverse t) = mset (nodes t)"
  using nodes_unfold[of t] by (simp add: traverse_def mset_levelorder)

lemma set_traverse: "set (traverse t) = set (nodes t)"
  using mset_traverse[of t] by (metis set_mset_mset)

lemma get_descendants_levelorder: "get_descendants t = levelorder (children t)"
  by (simp add: get_descendants_def traverse_def)

lemma set_get_descendants: "set (get_descendants t) = (\<Union>c \<in> set (children t). set (nodes c))"
proof -
  have "set (get_descendants t) = set_mset (mset (concat (map nodes (children t))))"
    unfolding get_descendants_levelorder mset_levelorder[symmetric] by simp
  then show ?thesis by simp
qed

lemma child_nodes_subset: "c \<in> set (children t) \<Longrightarrow> set (nodes c) \<subseteq> set (nodes t)"
  by (subst (2) nodes_unfold) auto

lemma schild_in: "schild c \<in> idx ` set (nodes c)"
proof (cases "children c = []")
  case True
  then show ?thesis using self_in_nodes[of c] by (simp add: schild_def)
next
  case False
  then obtain c' where c': "c' \<in> set (children c)" by (cases "children c") auto
  let ?S = "set (map idx (get_descendants c))"
  have "c' \<in> set (get_descendants c)"
    using c' self_in_nodes[of c'] by (auto simp: set_get_descendants)
  then have "?S \<noteq> {}" by auto
  then have "Min ?S \<in> ?S" by (intro Min_in) simp_all
  moreover have "?S \<subseteq> idx ` set (nodes c)"
    using child_nodes_subset[of _ c] by (auto simp: set_get_descendants)
  ultimately show ?thesis using False by (auto simp: schild_def)
qed

lemma sd_from_children:
  assumes "children n \<noteq> []"
  shows "\<exists>a \<in> set (children n). fst (sd n) = schild a" "\<exists>b \<in> set (children n). snd (sd n) = schild b"
proof -
  let ?S = "set (map schild (children n))"
  have ne: "?S \<noteq> {}" using assms by simp
  have "Max ?S \<in> ?S" using assms by (intro Max_in) simp_all
  then show "\<exists>a \<in> set (children n). fst (sd n) = schild a" by (auto simp: sd_def)
  have "Min ?S \<in> ?S" using assms by (intro Min_in) simp_all
  then show "\<exists>b \<in> set (children n). snd (sd n) = schild b" by (auto simp: sd_def)
qed

lemma sd_all_equal:
  assumes "fst (sd n) = snd (sd n)" "c \<in> set (children n)"
  shows "schild c = snd (sd n)"
proof -
  let ?S = "set (map schild (children n))"
  have "schild c \<in> ?S" using assms(2) by simp
  then have "Min ?S \<le> schild c" "schild c \<le> Max ?S" by simp_all
  with assms(1) show ?thesis by (simp add: sd_def)
qed

lemma nodes_subtree: "n \<in> set (nodes t) \<Longrightarrow> set (nodes n) \<subseteq> set (nodes t)"
proof (induction t)
  case (Node i h cs)
  show ?case
  proof (cases "n = Node i h cs")
    case True
    then show ?thesis by simp
  next
    case False
    with Node.prems obtain c where c: "c \<in> set cs" "n \<in> set (nodes c)" by auto
    from Node.IH[OF c] c(1) show ?thesis by auto
  qed
qed

lemma sd_in_subtree:
  assumes "n \<in> set (nodes t)" "children n \<noteq> []"
  shows "fst (sd n) \<in> idx ` set (nodes t)" "snd (sd n) \<in> idx ` set (nodes t)"
proof -
  from sd_from_children[OF assms(2)] obtain a b where
    ab: "a \<in> set (children n)" "fst (sd n) = schild a" "b \<in> set (children n)" "snd (sd n) = schild b"
    by blast
  have sub: "\<And>c. c \<in> set (children n) \<Longrightarrow> idx ` set (nodes c) \<subseteq> idx ` set (nodes t)"
    using child_nodes_subset nodes_subtree[OF assms(1)] by blast
  show "fst (sd n) \<in> idx ` set (nodes t)" using ab(1,2) schild_in[of a] sub by auto
  show "snd (sd n) \<in> idx ` set (nodes t)" using ab(3,4) schild_in[of b] sub by auto
qed

lemma distinct_concat_disjoint:
  "distinct (concat (map f xs)) \<Longrightarrow> x \<in> set xs \<Longrightarrow> y \<in> set xs \<Longrightarrow> x \<noteq> y \<Longrightarrow>
   set (f x) \<inter> set (f y) = {}"
  by (induction xs) auto

lemma distinct_concat_part:
  "distinct (concat (map f xs)) \<Longrightarrow> x \<in> set xs \<Longrightarrow> distinct (f x)"
  by (induction xs) auto

lemma distinct_concat_args:
  "distinct (concat (map f xs)) \<Longrightarrow> \<forall>x \<in> set xs. f x \<noteq> [] \<Longrightarrow> distinct xs"
proof (induction xs)
  case Nil
  show ?case by simp
next
  case (Cons a xs)
  have fa: "f a \<noteq> []" using Cons.prems(2) by simp
  have d: "distinct (f a @ concat (map f xs))" using Cons.prems(1) by simp
  then have d1: "distinct (concat (map f xs))"
    and d2: "set (f a) \<inter> set (concat (map f xs)) = {}" by (simp_all only: distinct_append)
  have rest: "\<forall>x \<in> set xs. f x \<noteq> []" using Cons.prems(2) by simp
  have "a \<notin> set xs"
  proof
    assume "a \<in> set xs"
    then have "set (f a) \<subseteq> (\<Union>x \<in> set xs. set (f x))" by blast
    then have "set (f a) \<subseteq> set (concat (map f xs))" by simp
    then have "set (f a) \<inter> set (concat (map f xs)) = set (f a)" by (rule Int_absorb2)
    with d2 have "set (f a) = {}" by simp
    then have "f a = []" by (simp only: set_empty)
    with fa show False by (rule notE)
  qed
  moreover have "distinct xs" by (rule Cons.IH[OF d1 rest])
  ultimately show ?case by (simp only: distinct.simps simp_thms)
qed

lemma nodes_nonempty: "nodes c \<noteq> []"
  by (subst nodes_unfold) simp

lemma children_idx_facts:
  assumes "distinct (map idx (nodes (Node i h cs)))"
  shows "\<And>c. c \<in> set cs \<Longrightarrow> distinct (map idx (nodes c))"
    and "\<And>c d. c \<in> set cs \<Longrightarrow> d \<in> set cs \<Longrightarrow> c \<noteq> d \<Longrightarrow>
           idx ` set (nodes c) \<inter> idx ` set (nodes d) = {}"
    and "distinct cs"
proof -
  let ?f = "\<lambda>c. map idx (nodes c)"
  have d: "distinct (concat (map ?f cs))"
    using assms by (simp add: map_concat comp_def)
  show "\<And>c. c \<in> set cs \<Longrightarrow> distinct (map idx (nodes c))"
    using distinct_concat_part[OF d] by simp
  show "\<And>c d. c \<in> set cs \<Longrightarrow> d \<in> set cs \<Longrightarrow> c \<noteq> d \<Longrightarrow>
           idx ` set (nodes c) \<inter> idx ` set (nodes d) = {}"
    using distinct_concat_disjoint[OF d] by simp
  show "distinct cs"
    by (rule distinct_concat_args[OF d]) (simp add: nodes_nonempty)
qed

lemma sd_inj:
  "distinct (map idx (nodes t)) \<Longrightarrow> no_unary t \<Longrightarrow>
   inj_on sd {n \<in> set (nodes t). children n \<noteq> []}"
proof (induction t)
  case (Node i h cs)
  let ?t = "Node i h cs"
  note facts = children_idx_facts[OF Node.prems(1)]
  have unary: "length cs \<noteq> 1" and nu: "\<And>c. c \<in> set cs \<Longrightarrow> no_unary c"
    using Node.prems(2) by (simp_all add: list_all_iff)
  have IH: "\<And>c. c \<in> set cs \<Longrightarrow> inj_on sd {n \<in> set (nodes c). children n \<noteq> []}"
    using Node.IH facts(1) nu by blast
  have inside: "fst (sd n) \<in> idx ` set (nodes c) \<and> snd (sd n) \<in> idx ` set (nodes c)"
    if "n \<in> set (nodes c)" "children n \<noteq> []" for n c
    using sd_in_subtree[OF that] by simp
  have root_differs: "sd ?t \<noteq> sd n" if c: "c \<in> set cs" and n: "n \<in> set (nodes c)" "children n \<noteq> []" for n c
  proof
    assume eq: "sd ?t = sd n"
    have cs: "children ?t \<noteq> []" using c by auto
    from sd_from_children[OF cs] obtain a b where
      ab: "a \<in> set cs" "fst (sd ?t) = schild a" "b \<in> set cs" "snd (sd ?t) = schild b"
      by auto
    have "schild a \<in> idx ` set (nodes c)" using inside[OF n] eq ab(2) by simp
    then have a: "a = c" using facts(2)[OF ab(1) c] schild_in[of a] by blast
    have "schild b \<in> idx ` set (nodes c)" using inside[OF n] eq ab(4) by simp
    then have b: "b = c" using facts(2)[OF ab(3) c] schild_in[of b] by blast
    have same: "fst (sd ?t) = snd (sd ?t)" using ab(2,4) a b by simp
    have "c' = c" if c': "c' \<in> set cs" for c'
    proof -
      have e: "schild c' = schild c" using sd_all_equal[OF same, of c'] c' ab(4) b by simp
      show ?thesis
      proof (rule ccontr)
        assume "c' \<noteq> c"
        then have "idx ` set (nodes c') \<inter> idx ` set (nodes c) = {}" by (rule facts(2)[OF c' c])
        moreover have "schild c \<in> idx ` set (nodes c')" using schild_in[of c'] e by simp
        moreover have "schild c \<in> idx ` set (nodes c)" by (rule schild_in)
        ultimately show False by (simp only: disjoint_iff) 
      qed
    qed
    then have "set cs = {c}" using c by blast
    moreover have "card (set cs) = length cs" using facts(3) by (rule distinct_card)
    ultimately have "length cs = 1" by simp
    with unary show False by simp
  qed
  show ?case
  proof (rule inj_onI)
    fix x y
    assume x: "x \<in> {n \<in> set (nodes ?t). children n \<noteq> []}"
      and y: "y \<in> {n \<in> set (nodes ?t). children n \<noteq> []}"
      and eq: "sd x = sd y"
    from x consider "x = ?t" | c where "c \<in> set cs" "x \<in> set (nodes c)" "children x \<noteq> []" by auto
    then show "x = y"
    proof cases
      case 1
      from y consider "y = ?t" | d where "d \<in> set cs" "y \<in> set (nodes d)" "children y \<noteq> []" by auto
      then show ?thesis
      proof cases
        case 1
        with \<open>x = ?t\<close> show ?thesis by simp
      next
        case 2
        from root_differs[OF 2] eq \<open>x = ?t\<close> show ?thesis by simp
      qed
    next
      case 2
      note xc = 2
      from y consider "y = ?t" | d where "d \<in> set cs" "y \<in> set (nodes d)" "children y \<noteq> []" by auto
      then show ?thesis
      proof cases
        case 1
        from root_differs[OF xc] eq \<open>y = ?t\<close> show ?thesis by simp
      next
        case 2
        have "c = d"
        proof (rule ccontr)
          assume "c \<noteq> d"
          from facts(2)[OF xc(1) 2(1) this] inside[OF xc(2,3)] inside[OF 2(2,3)] eq
          show False by auto
        qed
        with IH[OF xc(1)] xc 2 eq show ?thesis by (auto dest: inj_onD)
      qed
    qed
  qed
qed

lemma divergence_sd:
  "divergence Ne n = MassMigration (height n * 2 * Ne) (fst (sd n)) (snd (sd n))"
  by (simp add: divergence_def sd_def Let_def)

lemma distinct_divergences_nodes:
  assumes "distinct (map idx (nodes t))" "no_unary t"
  shows "distinct (map (divergence Ne) (filter (\<lambda>n. children n \<noteq> []) (nodes t)))"
proof -
  have "distinct (nodes t)" using assms(1) by (simp add: distinct_map)
  then have d: "distinct (filter (\<lambda>n. children n \<noteq> []) (nodes t))" by simp
  have "inj_on (divergence Ne) {n \<in> set (nodes t). children n \<noteq> []}"
  proof (rule inj_onI)
    fix x y
    assume xy: "x \<in> {n \<in> set (nodes t). children n \<noteq> []}" "y \<in> {n \<in> set (nodes t). children n \<noteq> []}"
      and "divergence Ne x = divergence Ne y"
    then have e: "sd x = sd y" by (simp add: divergence_sd prod_eq_iff)
    show "x = y" by (rule inj_onD[OF sd_inj[OF assms] e xy])
  qed
  with d show ?thesis by (simp add: distinct_map)
qed

lemma mset_internal_traverse:
  "mset (map f (filter P (traverse t))) = mset (map f (filter P (nodes t)))"
  by (simp add: mset_traverse)

lemma unique_idx_nodes: "unique_idx t = distinct (map idx (nodes t))"
  unfolding unique_idx_def
  by (rule mset_eq_imp_distinct_iff) (simp add: mset_traverse)

lemma distinct_divergences:
  assumes "unique_idx t" "no_unary t"
  shows "distinct (map (divergence Ne) (filter (\<lambda>n. children n \<noteq> []) (traverse t)))"
  using distinct_divergences_nodes[OF assms(1)[unfolded unique_idx_nodes] assms(2), of Ne]
    mset_eq_imp_distinct_iff[OF mset_internal_traverse]
  by blast

lemma add_divergences_append:
  "distinct (demog @ map (divergence Ne) (filter (\<lambda>n. children n \<noteq> []) ns)) \<Longrightarrow>
   add_divergences Ne ns demog = demog @ map (divergence Ne) (filter (\<lambda>n. children n \<noteq> []) ns)"
proof (induction ns arbitrary: demog)
  case Nil
  show ?case by simp
next
  case (Cons n ns)
  show ?case
  proof (cases "children n = []")
    case True
    with Cons show ?thesis by simp
  next
    case False
    with Cons.prems have notin: "divergence Ne n \<notin> set demog"
      and d: "distinct ((demog @ [divergence Ne n]) @ map (divergence Ne) (filter (\<lambda>n. children n \<noteq> []) ns))"
      by auto
    from Cons.IH[OF d] notin False show ?thesis by (simp add: set_add_def)
  qed
qed

lemma mset_get_demography:
  assumes "unique_idx t" "no_unary t" "\<forall>xs. mset (as_list xs) = mset xs"
  shows "mset (get_demography as_list Ne t) =
         mset (map (divergence Ne) (filter (\<lambda>n. children n \<noteq> []) (traverse t)))"
proof -
  have "add_divergences Ne (traverse t) [] =
          map (divergence Ne) (filter (\<lambda>n. children n \<noteq> []) (traverse t))"
    using add_divergences_append[of "[]" Ne "traverse t"] distinct_divergences[OF assms(1,2)]
    by simp
  then show ?thesis using assms(3) by (simp add: get_demography_def)
qed

lemma bifurcating_no_unary: "bifurcating t \<Longrightarrow> no_unary t"
  by (induction t) (auto simp: list_all_iff)

lemma bifurcating_count:
  "bifurcating t \<Longrightarrow>
   length (filter (\<lambda>n. children n \<noteq> []) (nodes t)) + 1 = length (filter (\<lambda>n. children n = []) (nodes t))"
proof (induction t)
  case (Node i h cs)
  from Node.prems consider "cs = []" | a b where "cs = [a, b]"
    by (cases cs rule: list.exhaust; cases "tl cs") (auto simp: length_Suc_conv)
  then show ?case
  proof cases
    case 1
    then show ?thesis by simp
  next
    case 2
    with Node.prems have "bifurcating a" "bifurcating b" by simp_all
    with Node.IH[of a] Node.IH[of b] 2 show ?thesis by simp
  qed
qed

lemma length_filter_traverse:
  "length (filter P (traverse t)) = length (filter P (nodes t))"
  using mset_internal_traverse[of "\<lambda>x. x" P t] by (metis length_map mset_eq_length)

lemma ultrametric_nonneg: "ultrametric t \<Longrightarrow> n \<in> set (nodes t) \<Longrightarrow> 0 \<le> height n"
proof (induction t arbitrary: n)
  case (Node i h cs)
  have sub: "0 \<le> height m" if "c \<in> set cs" "m \<in> set (nodes c)" for c m
    using Node.IH[OF that(1) _ that(2)] Node.prems(1) that(1) by (simp add: list_all_iff)
  show ?case
  proof (cases "n = Node i h cs")
    case True
    show ?thesis
    proof (cases cs)
      case Nil
      with Node.prems(1) True show ?thesis by simp
    next
      case (Cons c cs')
      then have c: "c \<in> set cs" by simp
      have "0 \<le> height c" using sub[OF c self_in_nodes] .
      moreover have "height c \<le> h" using Node.prems(1) Cons by simp
      ultimately show ?thesis using True by simp
    qed
  next
    case False
    with Node.prems(2) obtain c where "c \<in> set cs" "n \<in> set (nodes c)" by auto
    then show ?thesis by (rule sub)
  qed
qed

subsection \<open>Claims about the demographic model builder\<close>

text \<open>
  Claim C2. For every valid species tree (strictly bifurcating, ultrametric, with unique
  node indices) with \<open>N = ntips\<close> tips and every \<open>Ne > 0\<close>, whatever the order in which
  the set of events is read, \<open>_get_demography\<close> returns exactly \<open>N - 1\<close> events, each
  with time \<open>\<ge> 0\<close>, and the list is sorted in ascending order of time.
\<close>

theorem demography_events:
  assumes "valid_tree t" "0 < Ne" "\<forall>xs. mset (as_list xs) = mset xs"
  shows "length (get_demography as_list Ne t) + 1 = ntips t \<and>
         (\<forall>e \<in> set (get_demography as_list Ne t). 0 \<le> time e) \<and>
         sorted (map time (get_demography as_list Ne t))"
proof -
  let ?int = "filter (\<lambda>n. children n \<noteq> []) (traverse t)"
  from assms(1) have bif: "bifurcating t" and ult: "ultrametric t" and uniq: "unique_idx t"
    by (simp_all add: valid_tree_def)
  have m: "mset (get_demography as_list Ne t) = mset (map (divergence Ne) ?int)"
    by (rule mset_get_demography[OF uniq bifurcating_no_unary[OF bif] assms(3)])
  have "length (get_demography as_list Ne t) = length (map (divergence Ne) ?int)"
    by (rule mset_eq_length[OF m])
  then have len: "length (get_demography as_list Ne t) + 1 = ntips t"
    using bifurcating_count[OF bif] by (simp add: ntips_def length_filter_traverse)
  have "set (get_demography as_list Ne t) = set (map (divergence Ne) ?int)"
    by (rule mset_eq_setD[OF m])
  moreover have "0 \<le> time (divergence Ne n)" if "n \<in> set (traverse t)" for n
    using ultrametric_nonneg[OF ult, of n] that assms(2)
    by (simp add: set_traverse divergence_sd)
  ultimately have nonneg: "\<forall>e \<in> set (get_demography as_list Ne t). 0 \<le> time e"
    by auto
  have "sorted (map time (get_demography as_list Ne t))"
    by (simp add: get_demography_def)
  with len nonneg show ?thesis by blast
qed

text \<open>
  The three-tip tree with internal nodes at heights 1 and 2 and \<open>Ne = 1000\<close>: two events,
  at times 2000 and 4000.
\<close>

theorem demography_events_witness:
  "valid_tree (Node 4 2 [Node 3 1 [Node 0 0 [], Node 1 0 []], Node 2 0 []]) \<and>
   (0::real) < 1000 \<and>
   ntips (Node 4 2 [Node 3 1 [Node 0 0 [], Node 1 0 []], Node 2 0 []]) = 3 \<and>
   get_demography rev 1000 (Node 4 2 [Node 3 1 [Node 0 0 [], Node 1 0 []], Node 2 0 []])
     = [MassMigration 2000 1 0, MassMigration 4000 2 0] \<and>
   length (get_demography rev 1000 (Node 4 2 [Node 3 1 [Node 0 0 [], Node 1 0 []], Node 2 0 []])) + 1 = 3 \<and>
   list_all (\<lambda>e. 0 \<le> time e)
     (get_demography rev 1000 (Node 4 2 [Node 3 1 [Node 0 0 [], Node 1 0 []], Node 2 0 []])) \<and>
   sorted (map time (get_demography rev 1000 (Node 4 2 [Node 3 1 [Node 0 0 [], Node 1 0 []], Node 2 0 []])))"
proof -
  let ?t = "Node 4 2 [Node 3 1 [Node 0 0 [], Node 1 0 []], Node 2 0 []]"
  have v: "valid_tree ?t" by code_simp
  have n: "ntips ?t = 3" by code_simp
  have g: "get_demography rev 1000 ?t = [MassMigration 2000 1 0, MassMigration 4000 2 0]"
    by code_simp
  have p: "(0::real) < 1000" by simp
  have r: "\<forall>xs :: event list. mset (rev xs) = mset xs" by simp
  from demography_events[OF v p r] v n g show ?thesis
    by (simp only: list_all_iff) simp
qed

text \<open>
  Claim C6, amended. The builder makes one event per internal node, whatever the number
  of its children: in a tree with unique node indices and no single-child node, the
  events returned are, one for each node \<open>n\<close> that has children, the event at time
  \<open>height n * 2 * Ne\<close> with destination the least and source the greatest \<open>schild\<close> of
  the children of \<open>n\<close>. The children in between appear in no event of the node: a node
  with \<open>k\<close> children contributes one event, not \<open>k - 1\<close>.
\<close>

theorem one_event_per_node:
  assumes "unique_idx t" "no_unary t" "\<forall>xs. mset (as_list xs) = mset xs"
  shows "mset (get_demography as_list Ne t) =
         mset (map (\<lambda>n. MassMigration (height n * 2 * Ne)
                          (Max (set (map schild (children n))))
                          (Min (set (map schild (children n)))))
                   (filter (\<lambda>n. children n \<noteq> []) (traverse t)))"
  using mset_get_demography[OF assms, of Ne]
  by (simp add: divergence_sd[abs_def] sd_def)

theorem one_event_per_node_witness:
  "unique_idx (Node 3 1 [Node 0 0 [], Node 1 0 [], Node 2 0 []]) \<and>
   no_unary (Node 3 1 [Node 0 0 [], Node 1 0 [], Node 2 0 []]) \<and>
   mset (get_demography rev 1000 (Node 3 1 [Node 0 0 [], Node 1 0 [], Node 2 0 []]))
     = mset [MassMigration 2000 2 0]"
proof -
  let ?t = "Node 3 1 [Node 0 0 [], Node 1 0 [], Node 2 0 []]"
  have u: "unique_idx ?t" by code_simp
  have n: "no_unary ?t" by code_simp
  have r: "\<forall>xs :: event list. mset (rev xs) = mset xs" by simp
  have e: "map (\<lambda>n. MassMigration (height n * 2 * 1000)
                          (Max (set (map schild (children n))))
                          (Min (set (map schild (children n)))))
                   (filter (\<lambda>n. children n \<noteq> []) (traverse ?t)) = [MassMigration 2000 2 0]"
    by code_simp
  from one_event_per_node[OF u n r, of 1000] u n show ?thesis
    unfolding e by simp
qed

text \<open>
  Claim C6 as stated fails: the root of the star tree below has three children, with
  \<open>schild\<close> 0, 1 and 2, and the builder returns the single event from 2 into 0; the claim
  asks for two events, from 1 into 0 and from 2 into 0.
\<close>

theorem multifurcation_counterexample:
  "length (children (Node 3 1 [Node 0 0 [], Node 1 0 [], Node 2 0 []])) = 3 \<and>
   map schild (children (Node 3 1 [Node 0 0 [], Node 1 0 [], Node 2 0 []])) = [0, 1, 2] \<and>
   get_demography (\<lambda>xs. xs) 1000 (Node 3 1 [Node 0 0 [], Node 1 0 [], Node 2 0 []])
     = [MassMigration 2000 2 0]"
  by code_simp

section \<open>Proofs: the genealogy serializer\<close>

lemma write_loop_lengths:
  "fst (write_loop ts c ls fs) = ls @ map (\<lambda>t. np_int64 (get_length t)) ts"
  by (induction ts arbitrary: c ls fs) simp_all

lemma write_loop_files:
  "snd (write_loop ts c ls fs) = fs @ zip [c..<c + length ts] (map newick ts)"
proof (induction ts arbitrary: c ls fs)
  case Nil
  show ?case by simp
next
  case (Cons t ts)
  have "[c..<c + length (t # ts)] = c # [Suc c..<Suc c + length ts]"
    by (simp add: upt_rec)
  with Cons show ?case by simp
qed

lemma lengths_write_trees:
  "ms_genetree_lengths (write_trees ts) = map (\<lambda>t. np_int64 (get_length t)) ts"
  using write_loop_lengths[of ts 0 "[]" "[]"]
  by (auto simp: write_trees_def split: prod.splits)

lemma files_write_trees:
  "ms_genetrees (write_trees ts) = zip [0..<length ts] (map newick ts)"
  using write_loop_files[of ts 0 "[]" "[]"]
  by (auto simp: write_trees_def split: prod.splits)

lemma trunc_sum:
  assumes "\<forall>t \<in> set ts. 0 \<le> get_length t"
  shows "real_of_int (sum_list (map (\<lambda>t. np_int64 (get_length t)) ts)) \<le> total_length ts"
    and "total_length ts - real (length ts) \<le> real_of_int (sum_list (map (\<lambda>t. np_int64 (get_length t)) ts))"
    and "(real_of_int (sum_list (map (\<lambda>t. np_int64 (get_length t)) ts)) = total_length ts)
           = (\<forall>t \<in> set ts. get_length t \<in> \<int>)"
  using assms
proof (induction ts)
  case Nil
  { case 1 show ?case by (simp add: total_length_def) }
  { case 2 show ?case by (simp add: total_length_def) }
  { case 3 show ?case by (simp add: total_length_def) }
next
  case (Cons t ts)
  { case 1
    then have "real_of_int (np_int64 (get_length t)) \<le> get_length t" by (simp add: np_int64_def)
    with Cons.IH(1) 1 show ?case by (simp add: total_length_def) }
  { case 2
    then have "get_length t - 1 \<le> real_of_int (np_int64 (get_length t))" by (simp add: np_int64_def)
    with Cons.IH(2) 2 show ?case by (simp add: total_length_def) }
  { case 3
    then have le: "real_of_int (np_int64 (get_length t)) \<le> get_length t" by (simp add: np_int64_def)
    have eq: "(real_of_int (np_int64 (get_length t)) = get_length t) = (get_length t \<in> \<int>)"
      using 3 by (auto simp: np_int64_def Ints_def)
    from 3 have rest: "\<forall>t \<in> set ts. 0 \<le> get_length t" by simp
    from Cons.IH(1)[OF rest] Cons.IH(3)[OF rest] le eq
    show ?case by (auto simp: total_length_def) }
qed

subsection \<open>Claims about the genealogy serializer\<close>

text \<open>
  Claim C7, amended. \<open>write_trees\<close> stores each interval length with its fractional part
  dropped. For interval lengths in \<open>[0, 2^63)\<close>, the reloaded table holds the floors of
  the interval lengths; their sum is at most the simulated total length and falls short
  of it by at most the number of intervals; it equals the total exactly when every
  interval length is a whole number.
\<close>

theorem lengths_roundtrip:
  assumes "\<forall>t \<in> set treeseq. 0 \<le> get_length t \<and> get_length t < 2 ^ 63"
  shows "ms_genetree_lengths (write_trees treeseq) = map (\<lambda>t. \<lfloor>get_length t\<rfloor>) treeseq \<and>
         real_of_int (sum_list (ms_genetree_lengths (write_trees treeseq))) \<le> total_length treeseq \<and>
         total_length treeseq - real (length treeseq)
           \<le> real_of_int (sum_list (ms_genetree_lengths (write_trees treeseq))) \<and>
         ((real_of_int (sum_list (ms_genetree_lengths (write_trees treeseq))) = total_length treeseq)
            = (\<forall>t \<in> set treeseq. get_length t \<in> \<int>))"
proof -
  from assms have nonneg: "\<forall>t \<in> set treeseq. 0 \<le> get_length t" by simp
  then have e: "map (\<lambda>t. np_int64 (get_length t)) treeseq = map (\<lambda>t. \<lfloor>get_length t\<rfloor>) treeseq"
    by (simp add: np_int64_def)
  show ?thesis unfolding lengths_write_trees using e trunc_sum[OF nonneg] by blast
qed

theorem lengths_roundtrip_witness:
  "list_all (\<lambda>t. 0 \<le> get_length t \<and> get_length t < 2 ^ 63)
     [\<lparr>get_length = 5/2, newick = ''(1:1,2:1);''\<rparr>, \<lparr>get_length = 15/2, newick = ''(2:1,1:1);''\<rparr>] \<and>
   ms_genetree_lengths (write_trees
     [\<lparr>get_length = 5/2, newick = ''(1:1,2:1);''\<rparr>, \<lparr>get_length = 15/2, newick = ''(2:1,1:1);''\<rparr>])
     = [2, 7] \<and>
   real_of_int (sum_list (ms_genetree_lengths (write_trees
     [\<lparr>get_length = 5/2, newick = ''(1:1,2:1);''\<rparr>, \<lparr>get_length = 15/2, newick = ''(2:1,1:1);''\<rparr>])))
     \<le> total_length
     [\<lparr>get_length = 5/2, newick = ''(1:1,2:1);''\<rparr>, \<lparr>get_length = 15/2, newick = ''(2:1,1:1);''\<rparr>]"
proof -
  let ?ts = "[\<lparr>get_length = 5/2, newick = ''(1:1,2:1);''\<rparr>, \<lparr>get_length = 15/2, newick = ''(2:1,1:1);''\<rparr>]"
  have h: "\<forall>t \<in> set ?ts. 0 \<le> get_length t \<and> get_length t < 2 ^ 63" by simp
  have f: "map (\<lambda>t. \<lfloor>get_length t\<rfloor>) ?ts = [2, 7]" by simp
  from lengths_roundtrip[OF h] show ?thesis unfolding f by (simp add: list_all_iff total_length_def)
qed

text \<open>
  Claim C7 as stated fails: two intervals of lengths 2.5 and 7.5 (total 10) are stored as
  2 and 7, which sum to 9.
\<close>

theorem lengths_roundtrip_counterexample:
  "sum_list (ms_genetree_lengths (write_trees
     [\<lparr>get_length = 5/2, newick = ''(1:1,2:1);''\<rparr>, \<lparr>get_length = 15/2, newick = ''(2:1,1:1);''\<rparr>])) = 9 \<and>
   total_length
     [\<lparr>get_length = 5/2, newick = ''(1:1,2:1);''\<rparr>, \<lparr>get_length = 15/2, newick = ''(2:1,1:1);''\<rparr>] = 10"
  by (simp add: lengths_write_trees np_int64_def total_length_def)

section \<open>Proofs: the alignment assembler\<close>

lemma header_len_cases:
  "header_len int_of line = Inl IndexError \<or> header_len int_of line = Inl ValueError \<or>
   (\<exists>n. header_len int_of line = Inr n)"
  by (auto simp: header_len_def py_index_def split: sum.splits option.splits if_splits)

lemma first_pass_results:
  "first_pass int_of dir idxs seq_len = Inl IOError \<or>
   first_pass int_of dir idxs seq_len = Inl TypeError \<or>
   (\<exists>n. first_pass int_of dir idxs seq_len = Inr n)"
  by (induction idxs arbitrary: seq_len) (auto simp: Let_def split: option.splits sum.splits)

subsection \<open>Claims about the alignment assembler\<close>

text \<open>
  Claim C8 (row \<open>i\<close> of the alignment is tip \<open>i\<close>, for every number of tips) on ten tips.
  The fragment lists its rows under the labels 1 to 10. The lines are sorted as strings,
  so the line of label 10 comes between those of labels 1 and 2: row 1 of the array,
  which is saved under the taxon label 2, holds the sequence \<open>GC\<close> of label 10, and every
  later row holds the sequence of the label before its own.
\<close>

theorem build_seqs_ten_tips:
  "build_seqs py_int
     (\<lambda>i. if i = 0
          then Some (unlines
            ['' 10 2'',
             ''1         AA'', ''2         AC'', ''3         AG'', ''4         AT'',
             ''5         CA'', ''6         CC'', ''7         CG'', ''8         CT'',
             ''9         GA'', ''10        GC''])
          else None) 1 10
   = Inr [''AA'', ''GC'', ''AC'', ''AG'', ''AT'', ''CA'', ''CC'', ''CG'', ''CT'', ''GA'']"
  by code_simp

text \<open>
  Claim C9, amended. When the header (the first line) of fragment file \<open>i\<close> cannot be
  parsed as an integer length, the parse raises \<open>IndexError\<close> (no third field) or
  \<open>ValueError\<close> (not an integer). In the length-counting loop this error is caught by the
  bare \<open>except\<close>: the loop does not end with it when it reaches file \<open>i\<close>, and it never
  ends with an \<open>IndexError\<close> or a \<open>ValueError\<close> at all, whatever the files and whatever
  \<open>int\<close> does. No error of the assembler names a file.
\<close>

theorem parse_error_caught:
  assumes "dir i = Some content"
    and "header_len int_of (hd (py_split CHR 0x0A content)) = Inl e"
  shows "(e = IndexError \<or> e = ValueError) \<and>
         first_pass int_of dir (i # rest) seq_len \<noteq> Inl e \<and>
         first_pass int_of dir idxs seq_len' \<noteq> Inl IndexError \<and>
         first_pass int_of dir idxs seq_len' \<noteq> Inl ValueError"
proof -
  from assms(2) header_len_cases[of int_of "hd (py_split CHR 0x0A content)"]
  have e: "e = IndexError \<or> e = ValueError" by auto
  moreover have "first_pass int_of dir (i # rest) seq_len \<noteq> Inl e"
    using first_pass_results[of int_of dir "i # rest" seq_len] e by auto
  moreover have "first_pass int_of dir idxs seq_len' \<noteq> Inl IndexError"
    and "first_pass int_of dir idxs seq_len' \<noteq> Inl ValueError"
    using first_pass_results[of int_of dir idxs seq_len'] by auto
  ultimately show ?thesis by blast
qed

theorem parse_error_caught_witness:
  "(\<lambda>i. if i = (0::nat) then Some (unlines ['' 1 abc'', ''1         A'']) else None) 0
      = Some (unlines ['' 1 abc'', ''1         A'']) \<and>
   header_len py_int (hd (py_split CHR 0x0A (unlines ['' 1 abc'', ''1         A''])))
      = Inl ValueError \<and>
   first_pass py_int (\<lambda>i. if i = 0 then Some (unlines ['' 1 abc'', ''1         A'']) else None)
      [0] 0 \<noteq> Inl ValueError"
proof -
  let ?c = "unlines ['' 1 abc'', ''1         A'']"
  let ?dir = "\<lambda>i. if i = (0::nat) then Some ?c else None"
  have d: "?dir 0 = Some ?c" by simp
  have h: "header_len py_int (hd (py_split CHR 0x0A ?c)) = Inl ValueError" by code_simp
  from parse_error_caught[of ?dir 0 ?c py_int ValueError "[]" 0, OF d h] d h
  show ?thesis by simp
qed

text \<open>
  Claim C9 as stated fails: for a fragment with the header \<open>" 1 abc"\<close> the parse raises
  \<open>ValueError\<close>, and \<open>build_seqs\<close> ends with the \<open>TypeError\<close> of the handler, an error
  that carries no file name.
\<close>

theorem malformed_header_counterexample:
  "header_len py_int '' 1 abc'' = Inl ValueError \<and>
   build_seqs py_int
     (\<lambda>i. if i = 0 then Some (unlines ['' 1 abc'', ''1         A'']) else None) 1 1
   = Inl TypeError"
  by code_simp

end
